theory Spec2Isabelle
  imports Main "HOL-Library.AList"
begin

section \<open>File organiser: classification by extension\<close>

text \<open>
  The development follows \<^verbatim>\<open>organise_files.py\<close>. Python strings are modelled as
  \<^typ>\<open>string\<close>; \<^verbatim>\<open>str.lower\<close> is modelled on the ASCII letters, every other character is
  left as it is.
\<close>

definition lower_char :: "char \<Rightarrow> char" where
  "lower_char c =
     (case map_of (zip ''ABCDEFGHIJKLMNOPQRSTUVWXYZ'' ''abcdefghijklmnopqrstuvwxyz'') c of
        Some d \<Rightarrow> d
      | None \<Rightarrow> c)"

definition lower :: "string \<Rightarrow> string" where
  "lower s = map lower_char s"

text \<open>
  \<^verbatim>\<open>str.rfind\<close> for a single character: the index of its last occurrence, \<open>None\<close> where
  Python returns \<open>-1\<close>.
\<close>

fun rfind :: "char \<Rightarrow> string \<Rightarrow> nat option" where
  "rfind c [] = None"
| "rfind c (x # xs) =
     (case rfind c xs of
        Some i \<Rightarrow> Some (Suc i)
      | None \<Rightarrow> if x = c then Some 0 else None)"

text \<open>
  \<^verbatim>\<open>PurePath.suffix\<close> of pathlib (Python 3.10 to 3.13), applied to the final path component:
  \<^verbatim>\<open>i = name.rfind('.')\<close>, and the result is \<^verbatim>\<open>name[i:]\<close> when \<^verbatim>\<open>0 < i < len(name) - 1\<close>,
  the empty string otherwise.
\<close>

definition suffix :: "string \<Rightarrow> string" where
  "suffix name =
     (case rfind CHR ''.'' name of
        None \<Rightarrow> []
      | Some i \<Rightarrow> if 0 < i \<and> i + 1 < length name then drop i name else [])"

subsection \<open>The declared categories\<close>

definition images :: "string list" where
  "images = [''.png'', ''.jpg'', ''.jpeg'', ''.gif'', ''.bmp'', ''.webp'', ''.svg'', ''.ico'',
             ''.tiff'', ''.tif'']"

definition videos :: "string list" where
  "videos = [''.mp4'', ''.avi'', ''.mkv'', ''.mov'', ''.wmv'', ''.flv'', ''.webm'', ''.m4v'',
             ''.mpeg'', ''.mpg'']"

definition documents :: "string list" where
  "documents = [''.pdf'', ''.doc'', ''.docx'', ''.xls'', ''.xlsx'', ''.ppt'', ''.pptx'', ''.txt'',
                ''.rtf'', ''.odt'', ''.ods'', ''.odp'', ''.csv'', ''.md'', ''.tex'']"

definition audio :: "string list" where
  "audio = [''.mp3'', ''.wav'', ''.flac'', ''.aac'', ''.ogg'', ''.wma'', ''.m4a'', ''.opus'']"

definition archives :: "string list" where
  "archives = [''.zip'', ''.rar'', ''.7z'', ''.tar'', ''.gz'', ''.bz2'', ''.xz'', ''.iso'']"

definition executables :: "string list" where
  "executables = [''.exe'', ''.msi'', ''.bat'', ''.cmd'', ''.sh'', ''.app'', ''.dmg'']"

definition code :: "string list" where
  "code = [''.py'', ''.js'', ''.ts'', ''.html'', ''.css'', ''.json'', ''.xml'', ''.yaml'', ''.yml'',
           ''.java'', ''.c'', ''.cpp'', ''.h'', ''.cs'', ''.go'', ''.rs'', ''.rb'', ''.php'']"

text \<open>
  A configuration is what the dictionary \<^verbatim>\<open>CATEGORIES\<close> holds: category names with their
  extension lists, in insertion order.
\<close>

type_synonym config = "(string \<times> string list) list"

definition CATEGORIES :: config where
  "CATEGORIES =
     [(''Images'', images), (''Videos'', videos), (''Documents'', documents), (''Audio'', audio),
      (''Archives'', archives), (''Executables'', executables), (''Code'', code)]"

definition OTHERS :: string where
  "OTHERS = ''Others''"

subsection \<open>Building the table\<close>

text \<open>
  \<^verbatim>\<open>_ext_to_categories.setdefault(k, []).append(v)\<close> on a dictionary kept as an association
  list in insertion order.
\<close>

fun setdefault_append ::
  "(string \<times> string list) list \<Rightarrow> string \<Rightarrow> string \<Rightarrow> (string \<times> string list) list" where
  "setdefault_append [] k v = [(k, [v])]"
| "setdefault_append ((k', vs) # d) k v =
     (if k' = k then (k', vs @ [v]) # d else (k', vs) # setdefault_append d k v)"

text \<open>The inner loop \<^verbatim>\<open>for ext in extensions\<close> and the outer loop over \<^verbatim>\<open>CATEGORIES.items()\<close>.\<close>

fun add_extensions ::
  "(string \<times> string list) list \<Rightarrow> string \<Rightarrow> string list \<Rightarrow> (string \<times> string list) list" where
  "add_extensions d category_name [] = d"
| "add_extensions d category_name (ext # extensions) =
     add_extensions (setdefault_append d (lower ext) category_name) category_name extensions"

fun add_categories :: "(string \<times> string list) list \<Rightarrow> config \<Rightarrow> (string \<times> string list) list" where
  "add_categories d [] = d"
| "add_categories d ((category_name, extensions) # cfg) =
     add_categories (add_extensions d category_name extensions) cfg"

definition ext_to_categories :: "config \<Rightarrow> (string \<times> string list) list" where
  "ext_to_categories cfg = add_categories [] cfg"

text \<open>The comprehension \<^verbatim>\<open>{ext: cats[0] if len(cats) == 1 else OTHERS ...}\<close>.\<close>

definition build_table :: "config \<Rightarrow> (string \<times> string) list" where
  "build_table cfg =
     map (\<lambda>(ext, cats). (ext, case cats of [c] \<Rightarrow> c | _ \<Rightarrow> OTHERS)) (ext_to_categories cfg)"

definition EXTENSION_TO_CATEGORY :: "(string \<times> string) list" where
  "EXTENSION_TO_CATEGORY = build_table CATEGORIES"

text \<open>
  \<^verbatim>\<open>get_category_for_file\<close>, on the file's name (the only part of the path that
  \<^verbatim>\<open>suffix\<close> reads); \<^verbatim>\<open>dict.get(ext, OTHERS)\<close> is the lookup with a default.
\<close>

definition get_category_for_file :: "string \<Rightarrow> string" where
  "get_category_for_file name =
     (let ext = lower (suffix name)
      in case map_of EXTENSION_TO_CATEGORY ext of Some c \<Rightarrow> c | None \<Rightarrow> OTHERS)"

subsection \<open>Vocabulary of the specification\<close>

text \<open>
  The categories that claim a normalised extension, once per declaration (\<open>claims\<close>) and as
  a set (\<open>claimed_by\<close>). A configuration is well formed when its category names are
  distinct, as the keys of a dictionary are, and no category lists an extension twice
  after normalisation.
\<close>

definition claims :: "config \<Rightarrow> string \<Rightarrow> string list" where
  "claims cfg e =
     concat (map (\<lambda>(c, exts). map (\<lambda>_. c) (filter (\<lambda>x. lower x = e) exts)) cfg)"

definition claimed_by :: "config \<Rightarrow> string \<Rightarrow> string set" where
  "claimed_by cfg e = set (claims cfg e)"

definition wf_config :: "config \<Rightarrow> bool" where
  "wf_config cfg \<longleftrightarrow>
     distinct (map fst cfg) \<and> list_all (\<lambda>(c, exts). distinct (map lower exts)) cfg"

text \<open>The categories recorded for an extension in \<^verbatim>\<open>_ext_to_categories\<close>, none when it is no key.\<close>

definition cats_of :: "(string \<times> string list) list \<Rightarrow> string \<Rightarrow> string list" where
  "cats_of d e = (case map_of d e of None \<Rightarrow> [] | Some vs \<Rightarrow> vs)"

text \<open>
  The extension as the specification words it: the part of the name from its last dot on,
  the dot included, and the empty string when the name has no dot.
\<close>

definition spec_extension :: "string \<Rightarrow> string" where
  "spec_extension name =
     (if CHR ''.'' \<in> set name
      then CHR ''.'' # rev (takeWhile (\<lambda>c. c \<noteq> CHR ''.'') (rev name))
      else [])"

section \<open>The file system\<close>

text \<open>
  What \<^verbatim>\<open>organise_folder\<close> can observe of a path: a regular file with its content, a
  directory with its entries, or a symbolic link. The entries of a directory are an
  association list, whose order is the order in which \<^verbatim>\<open>iterdir\<close> yields them: removing or
  replacing an entry keeps the order of the others, and a new entry comes last. A link
  carries what it resolves to: a regular file, a directory, or nothing (a dangling link).
  The target of a link is taken to lie outside the directory being organised.
\<close>

datatype node =
    File string
  | Dir "(string \<times> node) list"
  | LinkFile string
  | LinkDir "(string \<times> node) list"
  | LinkBroken

type_synonym entries = "(string \<times> node) list"

text \<open>\<^verbatim>\<open>Path.is_file\<close>, \<^verbatim>\<open>Path.is_dir\<close> and \<^verbatim>\<open>Path.exists\<close> follow symbolic links.\<close>

fun is_file :: "node \<Rightarrow> bool" where
  "is_file (File _) = True"
| "is_file (LinkFile _) = True"
| "is_file _ = False"

fun is_dir :: "node \<Rightarrow> bool" where
  "is_dir (Dir _) = True"
| "is_dir (LinkDir _) = True"
| "is_dir _ = False"

fun exists :: "node \<Rightarrow> bool" where
  "exists LinkBroken = False"
| "exists _ = True"

fun entries_of :: "node \<Rightarrow> entries option" where
  "entries_of (Dir es) = Some es"
| "entries_of (LinkDir es) = Some es"
| "entries_of _ = None"

fun with_entries :: "node \<Rightarrow> entries \<Rightarrow> node" where
  "with_entries (Dir _) es = Dir es"
| "with_entries (LinkDir _) es = LinkDir es"
| "with_entries v es = v"

text \<open>
  The errors of the operating system are Python's \<^verbatim>\<open>OSError\<close> and its subclasses. The
  operating system may refuse a call for a reason the tree does not show (permissions, a
  read-only or a different device): \<open>faults\<close> says which calls it refuses, and how.
\<close>

datatype oserror =
    NotADirectoryError
  | FileExistsError
  | FileNotFoundError
  | IsADirectoryError
  | PermissionError
  | OSError string

datatype syscall =
    Mkdir string
  | Unlink string string
  | Rename string string

type_synonym faults = "syscall \<Rightarrow> oserror option"

definition no_faults :: faults where
  "no_faults = (\<lambda>_. None)"

text \<open>The environment that refuses one move, of \<open>n\<close> into the directory \<open>d\<close>, and nothing else.\<close>

definition refuse_rename :: "string \<Rightarrow> string \<Rightarrow> oserror \<Rightarrow> faults" where
  "refuse_rename n d e = (\<lambda>c. if c = Rename n d then Some e else None)"

text \<open>
  \<^verbatim>\<open>target_dir.mkdir(exist_ok=True)\<close> for the directory \<open>d\<close> of the root: pathlib
  swallows every \<^verbatim>\<open>OSError\<close> of \<^verbatim>\<open>os.mkdir\<close> when the path is a directory already, and
  raises it otherwise.
\<close>

definition mkdir_exist_ok :: "faults \<Rightarrow> entries \<Rightarrow> string \<Rightarrow> oserror + entries" where
  "mkdir_exist_ok env es d =
     (case map_of es d of
        Some v \<Rightarrow>
          if is_dir v then Inr es
          else Inl (case env (Mkdir d) of Some e \<Rightarrow> e | None \<Rightarrow> FileExistsError)
      | None \<Rightarrow>
          (case env (Mkdir d) of
             Some e \<Rightarrow> Inl e
           | None \<Rightarrow> Inr (AList.update d (Dir []) es)))"

text \<open>The node at \<^verbatim>\<open>root / d / n\<close>, and \<^verbatim>\<open>dest.exists()\<close>.\<close>

definition dest_node :: "entries \<Rightarrow> string \<Rightarrow> string \<Rightarrow> node option" where
  "dest_node es d n =
     (case map_of es d of
        None \<Rightarrow> None
      | Some v \<Rightarrow> (case entries_of v of None \<Rightarrow> None | Some ds \<Rightarrow> map_of ds n))"

definition dest_exists :: "entries \<Rightarrow> string \<Rightarrow> string \<Rightarrow> bool" where
  "dest_exists es d n = (case dest_node es d n of None \<Rightarrow> False | Some v \<Rightarrow> exists v)"

text \<open>\<^verbatim>\<open>dest.unlink()\<close>: removes a file or a link, never a directory.\<close>

definition unlink :: "faults \<Rightarrow> entries \<Rightarrow> string \<Rightarrow> string \<Rightarrow> oserror + entries" where
  "unlink env es d n =
     (case env (Unlink d n) of
        Some e \<Rightarrow> Inl e
      | None \<Rightarrow>
          (case map_of es d of
             None \<Rightarrow> Inl FileNotFoundError
           | Some v \<Rightarrow>
               (case entries_of v of
                  None \<Rightarrow> Inl NotADirectoryError
                | Some ds \<Rightarrow>
                    (case map_of ds n of
                       None \<Rightarrow> Inl FileNotFoundError
                     | Some (Dir _) \<Rightarrow> Inl IsADirectoryError
                     | Some _ \<Rightarrow> Inr (AList.update d (with_entries v (AList.delete n ds)) es)))))"

text \<open>
  \<^verbatim>\<open>filepath.rename(dest)\<close> from \<^verbatim>\<open>root / n\<close> to \<^verbatim>\<open>root / d / n\<close>, with the rules of
  POSIX \<^verbatim>\<open>rename\<close>: an existing destination that is not a directory is replaced, a
  directory is replaced only by a directory and only when it is empty, and a directory
  cannot move into itself.
\<close>

definition rename_refused :: "node \<Rightarrow> node option \<Rightarrow> oserror option" where
  "rename_refused src dst =
     (case dst of
        None \<Rightarrow> None
      | Some (Dir ds) \<Rightarrow>
          (case src of
             Dir _ \<Rightarrow> if ds = [] then None else Some (OSError ''ENOTEMPTY'')
           | _ \<Rightarrow> Some IsADirectoryError)
      | Some _ \<Rightarrow> (case src of Dir _ \<Rightarrow> Some NotADirectoryError | _ \<Rightarrow> None))"

definition rename :: "faults \<Rightarrow> entries \<Rightarrow> string \<Rightarrow> string \<Rightarrow> oserror + entries" where
  "rename env es n d =
     (case env (Rename n d) of
        Some e \<Rightarrow> Inl e
      | None \<Rightarrow>
          (case map_of es n of
             None \<Rightarrow> Inl FileNotFoundError
           | Some src \<Rightarrow>
               (case map_of es d of
                  None \<Rightarrow> Inl FileNotFoundError
                | Some v \<Rightarrow>
                    (case entries_of v of
                       None \<Rightarrow> Inl NotADirectoryError
                     | Some ds \<Rightarrow>
                         if n = d then Inl (OSError ''EINVAL'')
                         else
                           (case rename_refused src (map_of ds n) of
                              Some e \<Rightarrow> Inl e
                            | None \<Rightarrow>
                                Inr (AList.update d (with_entries v (AList.update n src ds))
                                       (AList.delete n es)))))))"

section \<open>The organiser\<close>

text \<open>The lines \<^verbatim>\<open>organise_folder\<close> prints, without the text of the root path.\<close>

datatype line =
    NoFiles
  | DryRunBanner
  | Preview string string
  | SkipExists string string
  | Move string string
  | ErrorMoving string oserror
  | Done

text \<open>
  A run ends with the exception that left it, if any, the lines printed and the state of
  the file system.
\<close>

record 'a result =
  raised :: "oserror option"
  printed :: "line list"
  state :: 'a

definition all_files :: "entries \<Rightarrow> string list" where
  "all_files es = map fst (filter (\<lambda>(n, v). is_file v) es)"

text \<open>
  The body of the loop over \<^verbatim>\<open>all_files\<close> in live mode. Only \<^verbatim>\<open>rename\<close> stands inside
  the \<^verbatim>\<open>try\<close>; an error of \<^verbatim>\<open>mkdir\<close> or of \<^verbatim>\<open>unlink\<close> leaves the function.
\<close>

definition process_file :: "faults \<Rightarrow> bool \<Rightarrow> entries \<Rightarrow> string \<Rightarrow> entries result" where
  "process_file env skip_existing es n =
     (let category = get_category_for_file n in
      case mkdir_exist_ok env es category of
        Inl e \<Rightarrow> \<lparr>raised = Some e, printed = [], state = es\<rparr>
      | Inr es1 \<Rightarrow>
          if dest_exists es1 category n \<and> skip_existing
          then \<lparr>raised = None, printed = [SkipExists n category], state = es1\<rparr>
          else
            (case (if dest_exists es1 category n then unlink env es1 category n else Inr es1) of
               Inl e \<Rightarrow> \<lparr>raised = Some e, printed = [], state = es1\<rparr>
             | Inr es2 \<Rightarrow>
                 (case rename env es2 n category of
                    Inr es3 \<Rightarrow> \<lparr>raised = None, printed = [Move n category], state = es3\<rparr>
                  | Inl e \<Rightarrow> \<lparr>raised = None, printed = [ErrorMoving n e], state = es2\<rparr>)))"

fun organise_loop :: "faults \<Rightarrow> bool \<Rightarrow> bool \<Rightarrow> entries \<Rightarrow> string list \<Rightarrow> entries result" where
  "organise_loop env dry_run skip_existing es [] = \<lparr>raised = None, printed = [], state = es\<rparr>"
| "organise_loop env dry_run skip_existing es (n # ns) =
     (if dry_run
      then
        (let r = organise_loop env dry_run skip_existing es ns
         in r\<lparr>printed := Preview n (get_category_for_file n) # printed r\<rparr>)
      else
        (let p = process_file env skip_existing es n in
         case raised p of
           Some e \<Rightarrow> p
         | None \<Rightarrow>
             (let r = organise_loop env dry_run skip_existing (state p) ns
              in r\<lparr>printed := printed p @ printed r\<rparr>)))"

text \<open>
  \<^verbatim>\<open>organise_folder\<close> on the node \<open>w\<close> that the resolved \<^verbatim>\<open>folder_path\<close> names, \<open>None\<close>
  when nothing is there.
\<close>

definition organise_folder ::
  "faults \<Rightarrow> node option \<Rightarrow> bool \<Rightarrow> bool \<Rightarrow> node option result" where
  "organise_folder env w dry_run skip_existing =
     (case (case w of None \<Rightarrow> None | Some root \<Rightarrow> map_option (Pair root) (entries_of root)) of
        None \<Rightarrow> \<lparr>raised = Some NotADirectoryError, printed = [], state = w\<rparr>
      | Some (root, es) \<Rightarrow>
          if all_files es = []
          then \<lparr>raised = None, printed = [NoFiles], state = w\<rparr>
          else
            (let r = organise_loop env dry_run skip_existing es (all_files es) in
             \<lparr>raised = raised r,
              printed = (if dry_run then [DryRunBanner] else []) @ printed r @
                       (if \<not> dry_run \<and> raised r = None then [Done] else []),
              state = Some (with_entries root (state r))\<rparr>))"

text \<open>The target is a directory, and its entries have distinct names.\<close>

definition target_is_dir :: "node option \<Rightarrow> bool" where
  "target_is_dir w = (case w of None \<Rightarrow> False | Some root \<Rightarrow> is_dir root)"

definition wf_entries :: "entries \<Rightarrow> bool" where
  "wf_entries es \<longleftrightarrow> distinct (map fst es)"

definition root_entries :: "node option \<Rightarrow> entries" where
  "root_entries w =
     (case w of
        None \<Rightarrow> []
      | Some root \<Rightarrow> (case entries_of root of None \<Rightarrow> [] | Some es \<Rightarrow> es))"

text \<open>
  \<open>is_file_at es k\<close>: the root has an entry \<open>k\<close> for which \<^verbatim>\<open>is_file\<close> holds.
  \<open>same_kind\<close>: two nodes are the same, or both are directories, or both are links to
  directories (they differ in their entries only).
\<close>

definition is_file_at :: "entries \<Rightarrow> string \<Rightarrow> bool" where
  "is_file_at es k = (case map_of es k of None \<Rightarrow> False | Some v \<Rightarrow> is_file v)"

definition same_kind :: "node \<Rightarrow> node \<Rightarrow> bool" where
  "same_kind v v' =
     (case v of
        Dir _ \<Rightarrow> (case v' of Dir _ \<Rightarrow> True | _ \<Rightarrow> False)
      | LinkDir _ \<Rightarrow> (case v' of LinkDir _ \<Rightarrow> True | _ \<Rightarrow> False)
      | _ \<Rightarrow> v' = v)"

text \<open>
  \<open>settled env es n\<close>: with \<^verbatim>\<open>skip_existing=True\<close>, the pass for \<open>n\<close> in the state \<open>es\<close>
  raises nothing and leaves \<open>es\<close> as it is.
\<close>

definition settled :: "faults \<Rightarrow> entries \<Rightarrow> string \<Rightarrow> bool" where
  "settled env es n \<longleftrightarrow>
     raised (process_file env True es n) = None \<and> state (process_file env True es n) = es"

section \<open>Properties of the classification\<close>

subsection \<open>The table as a function of the configuration\<close>

lemma cats_of_setdefault_append:
  "cats_of (setdefault_append d k v) e = cats_of d e @ (if e = k then [v] else [])"
  by (induction d k v rule: setdefault_append.induct) (auto simp: cats_of_def)

lemma keys_setdefault_append:
  "fst ` set (setdefault_append d k v) = insert k (fst ` set d)"
  by (induction d k v rule: setdefault_append.induct) auto

lemma cats_of_add_extensions:
  "cats_of (add_extensions d c exts) e =
     cats_of d e @ map (\<lambda>_. c) (filter (\<lambda>x. lower x = e) exts)"
  by (induction d c exts rule: add_extensions.induct) (auto simp: cats_of_setdefault_append)

lemma keys_add_extensions:
  "fst ` set (add_extensions d c exts) = fst ` set d \<union> lower ` set exts"
  by (induction d c exts rule: add_extensions.induct) (auto simp: keys_setdefault_append)

lemma cats_of_add_categories:
  "cats_of (add_categories d cfg) e = cats_of d e @ claims cfg e"
  by (induction d cfg rule: add_categories.induct) (auto simp: cats_of_add_extensions claims_def)

lemma keys_add_categories:
  "fst ` set (add_categories d cfg) =
     fst ` set d \<union> lower ` (\<Union>(c, exts) \<in> set cfg. set exts)"
  by (induction d cfg rule: add_categories.induct) (auto simp: keys_add_extensions)

lemma claims_eq_Nil:
  "claims cfg e = [] \<longleftrightarrow> e \<notin> lower ` (\<Union>(c, exts) \<in> set cfg. set exts)"
  by (induction cfg) (auto simp: claims_def filter_empty_conv)

lemma map_of_ext_to_categories:
  "map_of (ext_to_categories cfg) e = (if claims cfg e = [] then None else Some (claims cfg e))"
proof (cases "claims cfg e = []")
  case True
  then have "e \<notin> fst ` set (ext_to_categories cfg)"
    by (simp add: ext_to_categories_def keys_add_categories claims_eq_Nil)
  then show ?thesis using True by (simp add: map_of_eq_None_iff)
next
  case False
  then have "e \<in> fst ` set (ext_to_categories cfg)"
    by (simp add: ext_to_categories_def keys_add_categories claims_eq_Nil)
  then obtain vs where vs: "map_of (ext_to_categories cfg) e = Some vs"
    by (metis map_of_eq_None_iff not_Some_eq)
  have "cats_of (ext_to_categories cfg) e = claims cfg e"
    using cats_of_add_categories [of "[]" cfg e] by (simp add: ext_to_categories_def cats_of_def)
  with vs False show ?thesis by (simp add: cats_of_def)
qed

lemma map_of_build_table:
  "map_of (build_table cfg) e =
     (case claims cfg e of [] \<Rightarrow> None | [c] \<Rightarrow> Some c | _ # _ # _ \<Rightarrow> Some OTHERS)"
  by (simp add: build_table_def map_of_map map_of_ext_to_categories split: list.splits)

lemma claimed_by_iff:
  "c \<in> claimed_by cfg e \<longleftrightarrow> (\<exists>exts. (c, exts) \<in> set cfg \<and> e \<in> lower ` set exts)"
  by (induction cfg) (auto simp: claimed_by_def claims_def)

lemma filter_key_at_most_one:
  "distinct (map f xs) \<Longrightarrow> length (filter (\<lambda>x. f x = y) xs) \<le> 1"
  by (induction xs) (auto simp: filter_empty_conv image_iff)

lemma claims_Cons:
  "claims ((c, exts) # cfg) e = map (\<lambda>_. c) (filter (\<lambda>x. lower x = e) exts) @ claims cfg e"
  by (simp add: claims_def)

lemma set_claims_subset: "set (claims cfg e) \<subseteq> fst ` set cfg"
  by (induction cfg) (auto simp: claims_Cons simp del: map_eq_conv, auto simp: claims_def)

lemma distinct_claims: "wf_config cfg \<Longrightarrow> distinct (claims cfg e)"
proof (induction cfg)
  case Nil
  then show ?case by (simp add: claims_def)
next
  case (Cons p cfg)
  obtain c exts where p: "p = (c, exts)" by (cases p)
  from Cons.prems p have wf: "wf_config cfg" and fresh: "c \<notin> fst ` set cfg"
    and d: "distinct (map lower exts)"
    by (auto simp: wf_config_def)
  from filter_key_at_most_one [OF d, of e]
  have "length (map (\<lambda>_. c) (filter (\<lambda>x. lower x = e) exts)) \<le> 1" by simp
  then have "distinct (map (\<lambda>_. c) (filter (\<lambda>x. lower x = e) exts))"
    by (cases "filter (\<lambda>x. lower x = e) exts") auto
  moreover have "set (map (\<lambda>_. c) (filter (\<lambda>x. lower x = e) exts)) \<inter> set (claims cfg e) = {}"
    using fresh set_claims_subset [of cfg e] by auto
  ultimately show ?case
    using Cons.IH [OF wf] by (simp add: p claims_Cons del: set_map)
qed

lemma distinct_singleton: "distinct xs \<Longrightarrow> set xs = {c} \<Longrightarrow> xs = [c]"
proof (cases xs)
  case Nil
  assume "set xs = {c}"
  with Nil show ?thesis by simp
next
  case (Cons x ys)
  assume d: "distinct xs" and s: "set xs = {c}"
  from s Cons have x: "x = c" and sub: "set ys \<subseteq> {c}" by auto
  from d Cons x have "c \<notin> set ys" by simp
  with sub have "ys = []" by (cases ys) auto
  with Cons x show ?thesis by simp
qed

lemma two_members_long: "a \<in> set xs \<Longrightarrow> b \<in> set xs \<Longrightarrow> a \<noteq> b \<Longrightarrow> \<exists>x y zs. xs = x # y # zs"
  by (cases xs; cases "tl xs") auto

subsection \<open>The shipped table\<close>

lemma table_value:
  "EXTENSION_TO_CATEGORY =
    [(''.png'', ''Images''), (''.jpg'', ''Images''), (''.jpeg'', ''Images''), (''.gif'', ''Images''),
     (''.bmp'', ''Images''), (''.webp'', ''Images''), (''.svg'', ''Images''), (''.ico'', ''Images''),
     (''.tiff'', ''Images''), (''.tif'', ''Images''),
     (''.mp4'', ''Videos''), (''.avi'', ''Videos''), (''.mkv'', ''Videos''), (''.mov'', ''Videos''),
     (''.wmv'', ''Videos''), (''.flv'', ''Videos''), (''.webm'', ''Videos''), (''.m4v'', ''Videos''),
     (''.mpeg'', ''Videos''), (''.mpg'', ''Videos''),
     (''.pdf'', ''Documents''), (''.doc'', ''Documents''), (''.docx'', ''Documents''),
     (''.xls'', ''Documents''), (''.xlsx'', ''Documents''), (''.ppt'', ''Documents''),
     (''.pptx'', ''Documents''), (''.txt'', ''Documents''), (''.rtf'', ''Documents''),
     (''.odt'', ''Documents''), (''.ods'', ''Documents''), (''.odp'', ''Documents''),
     (''.csv'', ''Documents''), (''.md'', ''Documents''), (''.tex'', ''Documents''),
     (''.mp3'', ''Audio''), (''.wav'', ''Audio''), (''.flac'', ''Audio''), (''.aac'', ''Audio''),
     (''.ogg'', ''Audio''), (''.wma'', ''Audio''), (''.m4a'', ''Audio''), (''.opus'', ''Audio''),
     (''.zip'', ''Archives''), (''.rar'', ''Archives''), (''.7z'', ''Archives''),
     (''.tar'', ''Archives''), (''.gz'', ''Archives''), (''.bz2'', ''Archives''),
     (''.xz'', ''Archives''), (''.iso'', ''Archives''),
     (''.exe'', ''Executables''), (''.msi'', ''Executables''), (''.bat'', ''Executables''),
     (''.cmd'', ''Executables''), (''.sh'', ''Executables''), (''.app'', ''Executables''),
     (''.dmg'', ''Executables''),
     (''.py'', ''Code''), (''.js'', ''Code''), (''.ts'', ''Code''), (''.html'', ''Code''),
     (''.css'', ''Code''), (''.json'', ''Code''), (''.xml'', ''Code''), (''.yaml'', ''Code''),
     (''.yml'', ''Code''), (''.java'', ''Code''), (''.c'', ''Code''), (''.cpp'', ''Code''),
     (''.h'', ''Code''), (''.cs'', ''Code''), (''.go'', ''Code''), (''.rs'', ''Code''),
     (''.rb'', ''Code''), (''.php'', ''Code'')]"
  by code_simp

lemma empty_extension_unknown: "map_of EXTENSION_TO_CATEGORY [] = None"
  by (simp add: table_value)

lemma category_of_empty_suffix: "suffix name = [] \<Longrightarrow> get_category_for_file name = OTHERS"
  by (simp add: get_category_for_file_def lower_def empty_extension_unknown)

lemma category_a_png: "get_category_for_file ''a.png'' = ''Images''"
  by (simp add: get_category_for_file_def table_value suffix_def lower_def lower_char_def)

lemma category_b_txt: "get_category_for_file ''b.txt'' = ''Documents''"
  by (simp add: get_category_for_file_def table_value suffix_def lower_def lower_char_def)


lemma category_Others: "get_category_for_file ''Others'' = ''Others''"
  by (simp add: get_category_for_file_def table_value suffix_def lower_def lower_char_def OTHERS_def)

subsection \<open>The last dot of a name\<close>

lemma rfind_None_iff: "rfind c xs = None \<longleftrightarrow> c \<notin> set xs"
  by (induction xs) (auto split: option.splits)

lemma rfind_last: "c \<notin> set ext \<Longrightarrow> rfind c (stem @ c # ext) = Some (length stem)"
  by (induction stem) (auto simp: rfind_None_iff split: option.splits)

lemma suffix_no_dot: "CHR ''.'' \<notin> set name \<Longrightarrow> suffix name = []"
  by (simp add: suffix_def rfind_None_iff [THEN iffD2])

lemma suffix_last_dot:
  "CHR ''.'' \<notin> set ext \<Longrightarrow>
   suffix (stem @ CHR ''.'' # ext) = (if stem \<noteq> [] \<and> ext \<noteq> [] then CHR ''.'' # ext else [])"
  by (simp add: suffix_def rfind_last)

lemma spec_extension_last_dot:
  assumes "CHR ''.'' \<notin> set ext"
  shows "spec_extension (stem @ CHR ''.'' # ext) = CHR ''.'' # ext"
proof -
  have tw: "takeWhile (\<lambda>c. c \<noteq> CHR ''.'') (rev ext) = rev ext"
    using assms by auto
  show ?thesis
    by (simp add: spec_extension_def takeWhile_tail tw)
qed

subsection \<open>Claims on the classification\<close>

text \<open>
  C1 (as amended). For every well-formed configuration, that is one whose category names are
  distinct and in which no category lists the same normalised extension twice, and for every
  normalised extension: if exactly one category claims the extension, the table maps it to
  that category; if two different categories claim it, the table maps it to \<open>Others\<close>.
\<close>

theorem table_unique_or_fallback:
  assumes "wf_config cfg"
  shows "(claimed_by cfg e = {c} \<longrightarrow> map_of (build_table cfg) e = Some c) \<and>
         ((\<exists>c1 c2. c1 \<in> claimed_by cfg e \<and> c2 \<in> claimed_by cfg e \<and> c1 \<noteq> c2) \<longrightarrow>
            map_of (build_table cfg) e = Some OTHERS)"
proof (intro conjI impI)
  assume "claimed_by cfg e = {c}"
  then have "claims cfg e = [c]"
    using distinct_claims [OF assms, of e] by (simp add: claimed_by_def distinct_singleton)
  then show "map_of (build_table cfg) e = Some c"
    by (simp add: map_of_build_table)
next
  assume "\<exists>c1 c2. c1 \<in> claimed_by cfg e \<and> c2 \<in> claimed_by cfg e \<and> c1 \<noteq> c2"
  then obtain x y zs where "claims cfg e = x # y # zs"
    unfolding claimed_by_def using two_members_long by metis
  then show "map_of (build_table cfg) e = Some OTHERS"
    by (simp add: map_of_build_table)
qed

text \<open>
  The shipped configuration is well formed and \<open>.png\<close> is claimed by \<open>Images\<close> alone; in a
  configuration that lists \<open>.md\<close> under both \<open>Documents\<close> and \<open>Code\<close>, \<open>.md\<close> goes to
  \<open>Others\<close>.
\<close>

theorem table_unique_or_fallback_witness:
  "wf_config CATEGORIES \<and> claimed_by CATEGORIES ''.png'' = {''Images''} \<and>
   map_of (build_table CATEGORIES) ''.png'' = Some ''Images'' \<and>
   wf_config [(''Documents'', [''.txt'', ''.md'']), (''Code'', [''.py'', ''.MD''])] \<and>
   ''Documents'' \<in> claimed_by [(''Documents'', [''.txt'', ''.md'']), (''Code'', [''.py'', ''.MD''])] ''.md'' \<and>
   ''Code'' \<in> claimed_by [(''Documents'', [''.txt'', ''.md'']), (''Code'', [''.py'', ''.MD''])] ''.md'' \<and>
   map_of (build_table [(''Documents'', [''.txt'', ''.md'']), (''Code'', [''.py'', ''.MD''])]) ''.md'' =
     Some ''Others''"
proof -
  let ?cfg = "[(''Documents'', [''.txt'', ''.md'']), (''Code'', [''.py'', ''.MD''])]"
  have wf1: "wf_config CATEGORIES"
    by code_simp
  have "claims CATEGORIES ''.png'' = [''Images'']"
    by code_simp
  then have one: "claimed_by CATEGORIES ''.png'' = {''Images''}"
    by (simp add: claimed_by_def)
  have wf2: "wf_config ?cfg"
    by (simp add: wf_config_def lower_def lower_char_def)
  have two: "''Documents'' \<in> claimed_by ?cfg ''.md''" "''Code'' \<in> claimed_by ?cfg ''.md''"
    by (simp_all add: claimed_by_def claims_def lower_def lower_char_def)
  then have ex: "\<exists>c1 c2. c1 \<in> claimed_by ?cfg ''.md'' \<and> c2 \<in> claimed_by ?cfg ''.md'' \<and> c1 \<noteq> c2"
    by (intro exI [of _ "''Documents''"] exI [of _ "''Code''"]) simp
  from table_unique_or_fallback [OF wf1, of "''.png''" "''Images''"] one
  have r1: "map_of (build_table CATEGORIES) ''.png'' = Some ''Images''" by simp
  from table_unique_or_fallback [OF wf2, of "''.md''"] ex
  have r2: "map_of (build_table ?cfg) ''.md'' = Some ''Others''" by (simp add: OTHERS_def)
  from wf1 one r1 wf2 two r2 show ?thesis by simp
qed

text \<open>
  C1 as stated fails where one category lists an extension twice: \<open>Code\<close> alone claims
  \<open>.py\<close>, and the table maps \<open>.py\<close> to \<open>Others\<close>.
\<close>

theorem table_duplicate_listing_counterexample:
  "claimed_by [(''Code'', [''.py'', ''.py''])] ''.py'' = {''Code''} \<and>
   map_of (build_table [(''Code'', [''.py'', ''.py''])]) ''.py'' = Some ''Others''"
  by (simp add: claimed_by_def claims_def map_of_build_table lower_def lower_char_def OTHERS_def)

text \<open>
  C6 (as amended). For every file name: a name with no dot has an empty suffix; when the last
  dot of the name is neither its first nor its last character, the suffix is the part of
  the name from that dot on, and it is empty when the last dot is the first or the last
  character; the extension looked up is the lower-cased suffix; and an empty or unknown
  extension resolves to \<open>Others\<close>.
\<close>

theorem extension_of_name:
  "(CHR ''.'' \<notin> set name \<longrightarrow> suffix name = []) \<and>
   (\<forall>stem ext. name = stem @ CHR ''.'' # ext \<and> CHR ''.'' \<notin> set ext \<longrightarrow>
      suffix name = (if stem \<noteq> [] \<and> ext \<noteq> [] then spec_extension name else [])) \<and>
   get_category_for_file name =
     (case map_of EXTENSION_TO_CATEGORY (lower (suffix name)) of Some c \<Rightarrow> c | None \<Rightarrow> OTHERS) \<and>
   (suffix name = [] \<longrightarrow> get_category_for_file name = OTHERS) \<and>
   (map_of EXTENSION_TO_CATEGORY (lower (suffix name)) = None \<longrightarrow>
      get_category_for_file name = OTHERS)"
proof (intro conjI allI impI)
  show "suffix name = []" if "CHR ''.'' \<notin> set name"
    using that by (rule suffix_no_dot)
  show "suffix name = (if stem \<noteq> [] \<and> ext \<noteq> [] then spec_extension name else [])"
    if "name = stem @ CHR ''.'' # ext \<and> CHR ''.'' \<notin> set ext" for stem ext
    using that by (simp add: suffix_last_dot spec_extension_last_dot)
  show "get_category_for_file name =
     (case map_of EXTENSION_TO_CATEGORY (lower (suffix name)) of Some c \<Rightarrow> c | None \<Rightarrow> OTHERS)"
    by (simp add: get_category_for_file_def)
  show "get_category_for_file name = OTHERS" if "suffix name = []"
    using that by (rule category_of_empty_suffix)
  show "get_category_for_file name = OTHERS"
    if "map_of EXTENSION_TO_CATEGORY (lower (suffix name)) = None"
    using that by (simp add: get_category_for_file_def)
qed

text \<open>
  On \<open>photo.PNG\<close> the suffix is \<open>.PNG\<close>, looked up as \<open>.png\<close>; \<open>Makefile\<close> has no dot and
  \<open>notes.xyz\<close> an unknown extension.
\<close>

theorem extension_of_name_witness:
  "suffix ''photo.PNG'' = ''.PNG'' \<and> spec_extension ''photo.PNG'' = ''.PNG'' \<and>
   get_category_for_file ''photo.PNG'' = ''Images'' \<and>
   CHR ''.'' \<notin> set ''Makefile'' \<and> suffix ''Makefile'' = [] \<and>
   get_category_for_file ''Makefile'' = ''Others'' \<and>
   map_of EXTENSION_TO_CATEGORY (lower (suffix ''notes.xyz'')) = None \<and>
   get_category_for_file ''notes.xyz'' = ''Others''"
proof -
  have split: "''photo.PNG'' = ''photo'' @ CHR ''.'' # ''PNG'' \<and> CHR ''.'' \<notin> set ''PNG''"
    by simp
  have spec: "spec_extension ''photo.PNG'' = ''.PNG''"
    by (simp add: spec_extension_def)
  from extension_of_name [of "''photo.PNG''"] split spec
  have s1: "suffix ''photo.PNG'' = ''.PNG''"
    by (metis list.distinct(1))
  have "get_category_for_file ''photo.PNG'' =
      (case map_of EXTENSION_TO_CATEGORY (lower (suffix ''photo.PNG'')) of
         Some c \<Rightarrow> c | None \<Rightarrow> OTHERS)"
    using extension_of_name [of "''photo.PNG''"] by blast
  moreover have "map_of EXTENSION_TO_CATEGORY (lower ''.PNG'') = Some ''Images''"
    by (simp add: table_value lower_def lower_char_def)
  ultimately have c1: "get_category_for_file ''photo.PNG'' = ''Images''"
    by (simp add: s1)
  have nodot: "CHR ''.'' \<notin> set ''Makefile''" by simp
  with extension_of_name [of "''Makefile''"]
  have s2: "suffix ''Makefile'' = []" by blast
  with extension_of_name [of "''Makefile''"]
  have "get_category_for_file ''Makefile'' = OTHERS" by blast
  then have c2: "get_category_for_file ''Makefile'' = ''Others''" by (simp add: OTHERS_def)
  have unknown: "map_of EXTENSION_TO_CATEGORY (lower (suffix ''notes.xyz'')) = None"
    by (simp add: table_value suffix_def lower_def lower_char_def)
  with extension_of_name [of "''notes.xyz''"]
  have "get_category_for_file ''notes.xyz'' = OTHERS" by blast
  then have c3: "get_category_for_file ''notes.xyz'' = ''Others''" by (simp add: OTHERS_def)
  from s1 spec c1 nodot s2 c2 unknown c3 show ?thesis by simp
qed

text \<open>
  C6 as stated fails on the name \<open>.py\<close>: the part of the name from its last dot on is
  \<open>.py\<close>, which the table maps to \<open>Code\<close>, but the suffix is empty and the file goes to
  \<open>Others\<close>.
\<close>

theorem extension_leading_dot_counterexample:
  "spec_extension ''.py'' = ''.py'' \<and> suffix ''.py'' = [] \<and>
   map_of EXTENSION_TO_CATEGORY (lower (spec_extension ''.py'')) = Some ''Code'' \<and>
   get_category_for_file ''.py'' = ''Others''"
  by (simp add: spec_extension_def suffix_def table_value lower_def lower_char_def
      get_category_for_file_def OTHERS_def)

text \<open>
  C10. For every name that begins with a dot and has no other dot, the derived extension is
  empty and the file is classified to \<open>Others\<close>, also when the whole name is an extension
  that a category declares.
\<close>

theorem dotfile_is_others:
  assumes "name = CHR ''.'' # rest" and "CHR ''.'' \<notin> set rest"
  shows "lower (suffix name) = [] \<and> get_category_for_file name = OTHERS"
proof -
  from assms have "suffix name = []"
    using suffix_last_dot [of rest "[]"] by simp
  then show ?thesis
    by (simp add: category_of_empty_suffix lower_def)
qed

text \<open>The names \<open>.py\<close>, an extension that \<open>Code\<close> declares, and \<open>.gitignore\<close>.\<close>

theorem dotfile_is_others_witness:
  "''.py'' \<in> set code \<and> map_of EXTENSION_TO_CATEGORY ''.py'' = Some ''Code'' \<and>
   lower (suffix ''.py'') = [] \<and> get_category_for_file ''.py'' = ''Others'' \<and>
   lower (suffix ''.gitignore'') = [] \<and> get_category_for_file ''.gitignore'' = ''Others''"
proof -
  have h1: "''.py'' = CHR ''.'' # ''py''" and h2: "CHR ''.'' \<notin> set ''py''" by simp_all
  have h3: "''.gitignore'' = CHR ''.'' # ''gitignore''" and h4: "CHR ''.'' \<notin> set ''gitignore''"
    by simp_all
  have "''.py'' \<in> set code" by (simp add: code_def)
  moreover have "map_of EXTENSION_TO_CATEGORY ''.py'' = Some ''Code''" by (simp add: table_value)
  ultimately show ?thesis
    using dotfile_is_others [OF h1 h2] dotfile_is_others [OF h3 h4] by (simp add: OTHERS_def)
qed

section \<open>Properties of the organiser\<close>

subsection \<open>Nodes\<close>

lemma is_dir_entries_of: "is_dir v \<longleftrightarrow> entries_of v \<noteq> None"
  by (cases v) auto

lemma entries_of_with_entries:
  "entries_of v = Some ds \<Longrightarrow> entries_of (with_entries v ds') = Some ds'"
  by (cases v) auto

lemma with_entries_same: "entries_of v = Some ds \<Longrightarrow> with_entries v ds = v"
  by (cases v) auto

lemma with_entries_twice: "with_entries (with_entries v ds) ds' = with_entries v ds'"
  by (cases v) auto

lemma is_file_not_dir: "is_file v \<Longrightarrow> entries_of v = None"
  by (cases v) auto

lemma is_file_with_entries: "entries_of v = Some ds \<Longrightarrow> \<not> is_file (with_entries v ds')"
  by (cases v) auto

lemma same_kind_refl: "same_kind v v"
  by (cases v) (auto simp: same_kind_def)

lemma same_kind_with_entries: "entries_of v = Some ds \<Longrightarrow> same_kind v (with_entries v ds')"
  by (cases v) (auto simp: same_kind_def)

lemma same_kind_trans: "same_kind a b \<Longrightarrow> same_kind b c \<Longrightarrow> same_kind a c"
  by (cases a; cases b; cases c) (auto simp: same_kind_def)



subsection \<open>The three calls\<close>

lemma mkdir_ok:
  assumes "mkdir_exist_ok env es d = Inr es1"
  obtains (there) v where "map_of es d = Some v" "is_dir v" "es1 = es"
  | (made) "map_of es d = None" "env (Mkdir d) = None" "es1 = AList.update d (Dir []) es"
  using assms by (auto simp: mkdir_exist_ok_def split: option.splits if_splits)


lemma mkdir_there: "map_of es d = Some v \<Longrightarrow> is_dir v \<Longrightarrow> mkdir_exist_ok env es d = Inr es"
  by (simp add: mkdir_exist_ok_def)

lemma mkdir_gives_dir:
  assumes "mkdir_exist_ok env es d = Inr es1"
  shows "\<exists>v. map_of es1 d = Some v \<and> is_dir v"
  using assms by (rule mkdir_ok) (auto simp: AList.update_conv')

lemma mkdir_elsewhere:
  assumes "mkdir_exist_ok env es d = Inr es1" and "k \<noteq> d"
  shows "map_of es1 k = map_of es k"
  using assms(1) by (rule mkdir_ok) (auto simp: AList.update_conv' assms(2))

lemma dest_exists_dir:
  assumes "dest_exists es d n"
  obtains v ds x where "map_of es d = Some v" "entries_of v = Some ds" "map_of ds n = Some x"
    "exists x"
  using assms by (auto simp: dest_exists_def dest_node_def split: option.splits)

lemma unlink_ok:
  assumes "unlink env es d n = Inr es2"
  obtains v ds x where "env (Unlink d n) = None" "map_of es d = Some v" "entries_of v = Some ds"
    "map_of ds n = Some x" "es2 = AList.update d (with_entries v (AList.delete n ds)) es"
  using assms by (auto simp: unlink_def split: option.splits node.splits)


lemma rename_ok:
  assumes "rename env es n d = Inr es3"
  obtains src v ds where "env (Rename n d) = None" "map_of es n = Some src" "map_of es d = Some v"
    "entries_of v = Some ds" "n \<noteq> d" "rename_refused src (map_of ds n) = None"
    "es3 = AList.update d (with_entries v (AList.update n src ds)) (AList.delete n es)"
  using assms by (auto simp: rename_def split: option.splits if_splits)

lemma rename_file_refused:
  "is_file src \<Longrightarrow> rename_refused src dst = Some e \<Longrightarrow> \<exists>ds. dst = Some (Dir ds)"
  by (cases src) (auto simp: rename_refused_def split: option.splits node.splits)

lemma rename_file_allowed:
  "is_file src \<Longrightarrow> (case dst of Some (Dir _) \<Rightarrow> False | _ \<Rightarrow> True) \<Longrightarrow> rename_refused src dst = None"
  by (cases src) (auto simp: rename_refused_def split: option.splits node.splits)

subsection \<open>One pass of the loop body\<close>

lemma process_file_cases [case_names mkdir_failed skipped unlink_failed moved not_moved]:
  obtains
    e where "mkdir_exist_ok env es (get_category_for_file n) = Inl e"
      "process_file env skip es n = \<lparr>raised = Some e, printed = [], state = es\<rparr>"
  | es1 where "mkdir_exist_ok env es (get_category_for_file n) = Inr es1"
      "dest_exists es1 (get_category_for_file n) n" "skip"
      "process_file env skip es n =
         \<lparr>raised = None, printed = [SkipExists n (get_category_for_file n)], state = es1\<rparr>"
  | es1 e where "mkdir_exist_ok env es (get_category_for_file n) = Inr es1"
      "dest_exists es1 (get_category_for_file n) n" "\<not> skip"
      "unlink env es1 (get_category_for_file n) n = Inl e"
      "process_file env skip es n = \<lparr>raised = Some e, printed = [], state = es1\<rparr>"
  | es1 es2 es3 where "mkdir_exist_ok env es (get_category_for_file n) = Inr es1"
      "if dest_exists es1 (get_category_for_file n) n
       then \<not> skip \<and> unlink env es1 (get_category_for_file n) n = Inr es2 else es2 = es1"
      "rename env es2 n (get_category_for_file n) = Inr es3"
      "process_file env skip es n =
         \<lparr>raised = None, printed = [Move n (get_category_for_file n)], state = es3\<rparr>"
  | es1 es2 e where "mkdir_exist_ok env es (get_category_for_file n) = Inr es1"
      "if dest_exists es1 (get_category_for_file n) n
       then \<not> skip \<and> unlink env es1 (get_category_for_file n) n = Inr es2 else es2 = es1"
      "rename env es2 n (get_category_for_file n) = Inl e"
      "process_file env skip es n =
         \<lparr>raised = None, printed = [ErrorMoving n e], state = es2\<rparr>"
proof (cases "mkdir_exist_ok env es (get_category_for_file n)")
  case (Inl e)
  then show ?thesis using that(1) by (simp add: process_file_def)
next
  case (Inr es1)
  note mk = this
  show ?thesis
  proof (cases "dest_exists es1 (get_category_for_file n) n")
    case False
    note ne = this
    show ?thesis
    proof (cases "rename env es1 n (get_category_for_file n)")
      case (Inl e)
      with mk ne show ?thesis using that(5) [of es1 es1 e] by (simp add: process_file_def)
    next
      case (Inr es3)
      with mk ne show ?thesis using that(4) [of es1 es1 es3] by (simp add: process_file_def)
    qed
  next
    case True
    note ex = this
    show ?thesis
    proof (cases skip)
      case True
      with mk ex show ?thesis using that(2) [of es1] by (simp add: process_file_def)
    next
      case False
      note ns = this
      show ?thesis
      proof (cases "unlink env es1 (get_category_for_file n) n")
        case (Inl e)
        with mk ex ns show ?thesis using that(3) [of es1 e] by (simp add: process_file_def)
      next
        case (Inr es2)
        note ul = this
        show ?thesis
        proof (cases "rename env es2 n (get_category_for_file n)")
          case (Inl e)
          with mk ex ns ul show ?thesis using that(5) [of es1 es2 e] by (simp add: process_file_def)
        next
          case (Inr es3)
          with mk ex ns ul show ?thesis using that(4) [of es1 es2 es3]
            by (simp add: process_file_def)
        qed
      qed
    qed
  qed
qed

subsection \<open>The loop\<close>

lemmas run_defs =
  organise_folder_def all_files_def process_file_def mkdir_exist_ok_def dest_exists_def
  dest_node_def unlink_def rename_def rename_refused_def no_faults_def root_entries_def
  target_is_dir_def wf_entries_def is_file_at_def Let_def

lemma loop_dry_run:
  "organise_loop env True skip es ns =
     \<lparr>raised = None, printed = map (\<lambda>n. Preview n (get_category_for_file n)) ns, state = es\<rparr>"
  by (induction ns) simp_all

lemma loop_live_Cons:
  "organise_loop env False skip es (n # ns) =
     (case raised (process_file env skip es n) of
        Some e \<Rightarrow> process_file env skip es n
      | None \<Rightarrow>
          (let r = organise_loop env False skip (state (process_file env skip es n)) ns
           in r\<lparr>printed := printed (process_file env skip es n) @ printed r\<rparr>))"
  by (simp add: Let_def)



lemma folder_not_dir:
  "\<not> target_is_dir w \<Longrightarrow>
   organise_folder env w dry skip = \<lparr>raised = Some NotADirectoryError, printed = [], state = w\<rparr>"
  by (cases w) (auto simp: organise_folder_def target_is_dir_def is_dir_entries_of)

lemma folder_dir:
  assumes "target_is_dir w"
  obtains root es where "w = Some root" "entries_of root = Some es"
    "organise_folder env w dry skip =
       (if all_files es = []
        then \<lparr>raised = None, printed = [NoFiles], state = w\<rparr>
        else
          (let r = organise_loop env dry skip es (all_files es) in
           \<lparr>raised = raised r,
            printed = (if dry then [DryRunBanner] else []) @ printed r @
                      (if \<not> dry \<and> raised r = None then [Done] else []),
            state = Some (with_entries root (state r))\<rparr>))"
  using assms by (cases w) (auto simp: organise_folder_def target_is_dir_def is_dir_entries_of)

subsection \<open>Claims on the preconditions and on the dry run\<close>

text \<open>
  C3. A dry run changes nothing in the file system: whatever the target is, the state after
  \<^verbatim>\<open>organise_folder\<close> with \<^verbatim>\<open>dry_run=True\<close> is the state before it. No directory is created
  and no file is moved or removed.
\<close>

theorem dry_run_changes_nothing: "state (organise_folder env w True skip) = w"
proof (cases "target_is_dir w")
  case False
  then show ?thesis by (simp add: folder_not_dir)
next
  case True
  then show ?thesis
    by (rule folder_dir [of w env True skip]) (simp add: loop_dry_run with_entries_same)
qed



subsection \<open>What one pass changes\<close>


lemma is_file_atE:
  assumes "is_file_at es k"
  obtains v where "map_of es k = Some v" "is_file v"
  using assms by (auto simp: is_file_at_def split: option.splits)

lemma dest_node_update:
  "dest_node (AList.update d v es) c k =
     (if c = d then (case entries_of v of None \<Rightarrow> None | Some ds \<Rightarrow> map_of ds k)
      else dest_node es c k)"
  by (simp add: dest_node_def AList.update_conv')

lemma dest_node_delete:
  "dest_node (AList.delete n es) c k = (if c = n then None else dest_node es c k)"
  by (simp add: dest_node_def AList.delete_conv')

lemma dest_node_file: "is_file_at es c \<Longrightarrow> dest_node es c k = None"
  by (auto simp: dest_node_def is_file_not_dir elim!: is_file_atE)

text \<open>The state after the three calls, as maps.\<close>

lemma mkdir_map:
  assumes "mkdir_exist_ok env es d = Inr es1"
  shows "map_of es1 k = (if k = d \<and> map_of es d = None then Some (Dir []) else map_of es k)"
  using assms by (rule mkdir_ok) (auto simp: AList.update_conv')

lemma mkdir_dest:
  assumes "mkdir_exist_ok env es d = Inr es1"
  shows "dest_node es1 c k = dest_node es c k"
  using assms
  by (rule mkdir_ok) (auto simp: dest_node_update, simp add: dest_node_def)

lemma unlink_map:
  assumes "unlink env es d n = Inr es2"
  shows "\<exists>v ds. map_of es d = Some v \<and> entries_of v = Some ds \<and>
           map_of es2 = (map_of es)(d \<mapsto> with_entries v (AList.delete n ds))"
  using assms by (rule unlink_ok) (auto simp: AList.update_conv')

lemma unlink_dest:
  assumes "unlink env es d n = Inr es2"
  shows "dest_node es2 c k = (if c = d \<and> k = n then None else dest_node es c k)"
  using assms
proof (rule unlink_ok)
  fix v ds
  assume a: "map_of es d = Some v" "entries_of v = Some ds"
    "es2 = AList.update d (with_entries v (AList.delete n ds)) es"
  then have "dest_node es2 c k = (if c = d then map_of (AList.delete n ds) k else dest_node es c k)"
    by (simp add: dest_node_update entries_of_with_entries)
  also have "\<dots> = (if c = d \<and> k = n then None else dest_node es c k)"
    using a by (simp add: AList.delete_conv' dest_node_def)
  finally show ?thesis .
qed

lemma rename_map:
  assumes "rename env es n d = Inr es3"
  shows "\<exists>src v ds. map_of es n = Some src \<and> map_of es d = Some v \<and> entries_of v = Some ds \<and>
           n \<noteq> d \<and>
           map_of es3 = (map_of es)(n := None, d \<mapsto> with_entries v (AList.update n src ds))"
  using assms by (rule rename_ok) (auto simp: AList.update_conv' AList.delete_conv')

lemma rename_dest:
  assumes "rename env es n d = Inr es3" and "is_file_at es n"
  shows "dest_node es3 c k = (if c = d \<and> k = n then map_of es n else dest_node es c k)"
  using assms(1)
proof (rule rename_ok)
  fix src v ds
  assume a: "map_of es n = Some src" "map_of es d = Some v" "entries_of v = Some ds" "n \<noteq> d"
    "es3 = AList.update d (with_entries v (AList.update n src ds)) (AList.delete n es)"
  have nk: "dest_node es n k = None"
    using assms(2) by (rule dest_node_file)
  from a have "dest_node es3 c k =
      (if c = d then map_of (AList.update n src ds) k else dest_node (AList.delete n es) c k)"
    by (simp add: dest_node_update entries_of_with_entries)
  also have "\<dots> = (if c = d then (if k = n then Some src else dest_node es c k)
      else dest_node es c k)"
    using a nk by (simp add: AList.update_conv' dest_node_delete) (simp add: dest_node_def)
  finally show ?thesis using a by simp
qed

lemma rename_error_of_file:
  assumes "rename env es n d = Inl e" and "is_file_at es n"
    and "map_of es d = Some v" and "is_dir v" and "\<not> dest_exists es d n"
  shows "env (Rename n d) = Some e"
proof (rule ccontr)
  assume ne: "env (Rename n d) \<noteq> Some e"
  from assms(2) obtain src where src: "map_of es n = Some src" "is_file src"
    by (rule is_file_atE)
  from assms(4) obtain ds where ds: "entries_of v = Some ds"
    by (auto simp: is_dir_entries_of)
  from src assms(3,4) have nd: "n \<noteq> d" by (auto simp: is_dir_entries_of is_file_not_dir)
  from assms(5) assms(3) ds have "case map_of ds n of Some (Dir _) \<Rightarrow> False | _ \<Rightarrow> True"
    by (auto simp: dest_exists_def dest_node_def split: option.splits node.splits)
  with src have "rename_refused src (map_of ds n) = None"
    by (simp add: rename_file_allowed)
  with assms(1) ne src assms(3) ds nd show False
    by (auto simp: rename_def split: option.splits)
qed

lemma mkdir_keeps_file:
  assumes "mkdir_exist_ok env es d = Inr es1" and "is_file_at es k"
  shows "is_file_at es1 k"
  using assms(2) mkdir_map [OF assms(1), of k]
  by (auto simp: is_file_at_def split: option.splits if_splits)

lemma unlink_keeps_file:
  assumes "unlink env es d n = Inr es2" and "is_file_at es k"
  shows "is_file_at es2 k"
proof -
  from unlink_map [OF assms(1)] obtain v ds where
    a: "map_of es d = Some v" "entries_of v = Some ds"
       "map_of es2 = (map_of es)(d \<mapsto> with_entries v (AList.delete n ds))"
    by blast
  from assms(2) a(1,2) have "k \<noteq> d"
    by (auto simp: is_file_at_def is_file_not_dir)
  with a(3) assms(2) show ?thesis by (simp add: is_file_at_def)
qed

lemma before_rename_keeps_file:
  assumes "mkdir_exist_ok env es c = Inr es1"
    and "if dest_exists es1 c n then \<not> skip \<and> unlink env es1 c n = Inr es2 else es2 = es1"
    and "is_file_at es k"
  shows "is_file_at es2 k"
proof -
  have "is_file_at es1 k" using assms(1,3) by (rule mkdir_keeps_file)
  with assms(2) show ?thesis
    by (cases "dest_exists es1 c n") (auto intro: unlink_keeps_file)
qed

lemma before_rename_dest:
  assumes "mkdir_exist_ok env es c = Inr es1"
    and "if dest_exists es1 c n then \<not> skip \<and> unlink env es1 c n = Inr es2 else es2 = es1"
  shows "dest_node es2 c' k =
     (if dest_exists es1 c n \<and> c' = c \<and> k = n then None else dest_node es c' k)"
proof (cases "dest_exists es1 c n")
  case True
  with assms(2) have "unlink env es1 c n = Inr es2" by simp
  from unlink_dest [OF this, of c' k] True show ?thesis
    by (simp add: mkdir_dest [OF assms(1)])
next
  case False
  with assms(2) show ?thesis by (simp add: mkdir_dest [OF assms(1)])
qed

text \<open>
  What one pass does to the entries of the root: nothing, or the category directory is
  created or receives new entries, and the file may leave the root.
\<close>

lemma process_file_top [case_names unchanged category moved]:
  fixes env skip es n
  obtains "state (process_file env skip es n) = es"
  | v' where "is_dir v'"
      "case map_of es (get_category_for_file n) of None \<Rightarrow> True | Some v \<Rightarrow> same_kind v v'"
      "map_of (state (process_file env skip es n)) = (map_of es)(get_category_for_file n \<mapsto> v')"
  | v' where "is_dir v'"
      "case map_of es (get_category_for_file n) of None \<Rightarrow> True | Some v \<Rightarrow> same_kind v v'"
      "n \<noteq> get_category_for_file n"
      "map_of (state (process_file env skip es n)) =
         (map_of es)(n := None, get_category_for_file n \<mapsto> v')"
proof -
  let ?c = "get_category_for_file n"
  have after_mkdir: "\<exists>v1. is_dir v1 \<and> (case map_of es ?c of None \<Rightarrow> True | Some v \<Rightarrow> same_kind v v1) \<and>
      map_of es1 = (map_of es)(?c \<mapsto> v1)" if "mkdir_exist_ok env es ?c = Inr es1" for es1
    using that
  proof (rule mkdir_ok)
    fix v assume "map_of es ?c = Some v" "is_dir v" "es1 = es"
    then show ?thesis
      by (intro exI [of _ v]) (auto simp: same_kind_refl)
  next
    assume "map_of es ?c = None" "es1 = AList.update ?c (Dir []) es"
    then show ?thesis
      by (intro exI [of _ "Dir []"]) (simp add: AList.update_conv')
  qed
  have after_unlink: "\<exists>v2. is_dir v2 \<and> (case map_of es ?c of None \<Rightarrow> True | Some v \<Rightarrow> same_kind v v2) \<and>
      map_of es2 = (map_of es)(?c \<mapsto> v2)"
    if mk: "mkdir_exist_ok env es ?c = Inr es1"
      and ul: "if dest_exists es1 ?c n then \<not> skip \<and> unlink env es1 ?c n = Inr es2 else es2 = es1"
    for es1 es2
  proof (cases "dest_exists es1 ?c n")
    case False
    with ul after_mkdir [OF mk] show ?thesis by simp
  next
    case True
    with ul have "unlink env es1 ?c n = Inr es2" by simp
    from unlink_map [OF this] obtain v ds where
      a: "map_of es1 ?c = Some v" "entries_of v = Some ds"
         "map_of es2 = (map_of es1)(?c \<mapsto> with_entries v (AList.delete n ds))"
      by blast
    from after_mkdir [OF mk] obtain v1 where
      b: "is_dir v1" "case map_of es ?c of None \<Rightarrow> True | Some v \<Rightarrow> same_kind v v1"
         "map_of es1 = (map_of es)(?c \<mapsto> v1)"
      by blast
    from a(1) b(3) have "v = v1" by simp
    with a(2) have sk: "same_kind v1 (with_entries v (AList.delete n ds))"
      by (simp add: same_kind_with_entries)
    show ?thesis
    proof (intro exI [of _ "with_entries v (AList.delete n ds)"] conjI)
      show "is_dir (with_entries v (AList.delete n ds))"
        using a(2) by (simp add: is_dir_entries_of entries_of_with_entries)
      show "case map_of es ?c of None \<Rightarrow> True | Some u \<Rightarrow> same_kind u (with_entries v (AList.delete n ds))"
        using b(2) sk by (auto split: option.splits intro: same_kind_trans)
      show "map_of es2 = (map_of es)(?c \<mapsto> with_entries v (AList.delete n ds))"
        using a(3) b(3) by simp
    qed
  qed
  show ?thesis
  proof (cases rule: process_file_cases [of env es n skip])
    case (mkdir_failed e)
    then show ?thesis using that(1) by simp
  next
    case (skipped es1)
    with after_mkdir [of es1] show ?thesis using that(2) by auto
  next
    case (unlink_failed es1 e)
    with after_mkdir [of es1] show ?thesis using that(2) by auto
  next
    case (not_moved es1 es2 e)
    with after_unlink [of es1 es2] show ?thesis using that(2) by auto
  next
    case (moved es1 es2 es3)
    from after_unlink [OF moved(1,2)] obtain v2 where
      b: "is_dir v2" "case map_of es ?c of None \<Rightarrow> True | Some v \<Rightarrow> same_kind v v2"
         "map_of es2 = (map_of es)(?c \<mapsto> v2)"
      by blast
    from rename_map [OF moved(3)] obtain src v ds where
      a: "map_of es2 ?c = Some v" "entries_of v = Some ds" "n \<noteq> ?c"
         "map_of es3 = (map_of es2)(n := None, ?c \<mapsto> with_entries v (AList.update n src ds))"
      by blast
    from a(1) b(3) have vv: "v = v2" by simp
    with a(2) have sk: "same_kind v2 (with_entries v (AList.update n src ds))"
      by (simp add: same_kind_with_entries)
    show ?thesis
    proof (rule that(3) [of "with_entries v (AList.update n src ds)"])
      show "is_dir (with_entries v (AList.update n src ds))"
        using a(2) by (simp add: is_dir_entries_of entries_of_with_entries)
      show "case map_of es ?c of None \<Rightarrow> True
            | Some u \<Rightarrow> same_kind u (with_entries v (AList.update n src ds))"
        using b(2) sk by (auto split: option.splits intro: same_kind_trans)
      show "n \<noteq> ?c" by (rule a(3))
      show "map_of (state (process_file env skip es n)) =
          (map_of es)(n := None, ?c \<mapsto> with_entries v (AList.update n src ds))"
        using a(3,4) b(3) moved(4) by (simp add: fun_upd_twist)
    qed
  qed
qed

lemma same_kind_file_dir: "same_kind v v' \<Longrightarrow> is_file v \<Longrightarrow> is_dir v' \<Longrightarrow> False"
  by (cases v; cases v') (auto simp: same_kind_def)

lemma process_file_keeps_file:
  assumes "is_file_at es k" and "k \<noteq> n"
  shows "map_of (state (process_file env skip es n)) k = map_of es k"
proof (cases rule: process_file_top [of env skip es n])
  case unchanged
  then show ?thesis by simp
next
  case (category v')
  with assms(1) have "k \<noteq> get_category_for_file n"
    by (auto elim!: is_file_atE dest: same_kind_file_dir)
  with category show ?thesis by simp
next
  case (moved v')
  with assms(1) have "k \<noteq> get_category_for_file n"
    by (auto elim!: is_file_atE dest: same_kind_file_dir)
  with moved assms(2) show ?thesis by simp
qed

lemma process_file_no_new_file:
  assumes "is_file_at (state (process_file env skip es n)) k"
  shows "is_file_at es k"
proof (cases rule: process_file_top [of env skip es n])
  case unchanged
  with assms show ?thesis by simp
next
  case (category v')
  with assms show ?thesis
    by (cases v') (auto simp: is_file_at_def split: if_splits)
next
  case (moved v')
  with assms show ?thesis
    by (cases v') (auto simp: is_file_at_def split: if_splits)
qed

lemma process_file_keeps_other:
  assumes "map_of es k = Some v" and "\<not> is_file v" and "is_file_at es n"
  shows "\<exists>v'. map_of (state (process_file env skip es n)) k = Some v' \<and> same_kind v v' \<and>
           (get_category_for_file n \<noteq> k \<longrightarrow> v' = v)"
proof -
  from assms have kn: "k \<noteq> n" by (auto simp: is_file_at_def)
  show ?thesis
  proof (cases rule: process_file_top [of env skip es n])
    case unchanged
    with assms(1) show ?thesis by (simp add: same_kind_refl)
  next
    case (category v')
    with assms(1) show ?thesis by (auto simp: same_kind_refl)
  next
    case (moved v')
    with assms(1) kn show ?thesis by (auto simp: same_kind_refl)
  qed
qed

lemma process_file_keeps_dest:
  assumes "is_file_at es n" and "k \<noteq> n"
  shows "dest_node (state (process_file env skip es n)) c k = dest_node es c k"
proof (cases rule: process_file_cases [of env es n skip])
  case (mkdir_failed e)
  then show ?thesis by simp
next
  case (skipped es1)
  then show ?thesis by (simp add: mkdir_dest)
next
  case (unlink_failed es1 e)
  then show ?thesis by (simp add: mkdir_dest)
next
  case (not_moved es1 es2 e)
  from before_rename_dest [OF not_moved(1,2), of c k] assms(2) not_moved(4)
  show ?thesis by simp
next
  case (moved es1 es2 es3)
  have "is_file_at es2 n"
    using moved(1,2) assms(1) by (rule before_rename_keeps_file)
  from rename_dest [OF moved(3) this, of c k] before_rename_dest [OF moved(1,2), of c k]
    assms(2) moved(4)
  show ?thesis by simp
qed

subsection \<open>What a whole pass over the files changes\<close>

lemma loop_live_state:
  "state (organise_loop env False skip es (n # ns)) =
     (if raised (process_file env skip es n) = None
      then state (organise_loop env False skip (state (process_file env skip es n)) ns)
      else state (process_file env skip es n))"
  by (auto simp: Let_def split: option.splits)

lemma loop_live_raised:
  "raised (organise_loop env False skip es (n # ns)) =
     (if raised (process_file env skip es n) = None
      then raised (organise_loop env False skip (state (process_file env skip es n)) ns)
      else raised (process_file env skip es n))"
  by (auto simp: Let_def split: option.splits)


text \<open>
  The names still to be processed are distinct and name files of the root; one pass keeps
  this for the names after it.
\<close>

lemma worklist_step:
  assumes "distinct (n # ns)" and "\<forall>m\<in>set (n # ns). is_file_at es m"
  shows "distinct ns \<and> (\<forall>m\<in>set ns. is_file_at (state (process_file env skip es n)) m)"
proof (intro conjI ballI)
  show "distinct ns" using assms(1) by simp
  fix m assume m: "m \<in> set ns"
  with assms have "is_file_at es m" "m \<noteq> n" by auto
  then show "is_file_at (state (process_file env skip es n)) m"
    using process_file_keeps_file [of es m n env skip] by (simp add: is_file_at_def)
qed

lemma loop_preserves:
  assumes step: "\<And>es n. is_file_at es n \<Longrightarrow> n \<in> set ns0 \<Longrightarrow> P es \<Longrightarrow>
                  P (state (process_file env skip es n))"
    and "P es" and "distinct ns" and "\<forall>m\<in>set ns. is_file_at es m" and "set ns \<subseteq> set ns0"
  shows "P (state (organise_loop env False skip es ns))"
  using assms(2-)
proof (induction ns arbitrary: es)
  case Nil
  then show ?case by simp
next
  case (Cons n ns)
  let ?p = "process_file env skip es n"
  from Cons.prems have P': "P (state ?p)"
    by (intro step) auto
  show ?case
  proof (cases "raised ?p = None")
    case False
    with P' show ?thesis by (auto simp: loop_live_state simp del: organise_loop.simps)
  next
    case True
    from worklist_step [OF Cons.prems(2,3), of env skip]
    have "P (state (organise_loop env False skip (state ?p) ns))"
      using Cons.prems(4) P' by (intro Cons.IH) auto
    with True show ?thesis by (simp add: loop_live_state del: organise_loop.simps)
  qed
qed

lemma loop_keeps_file:
  assumes "distinct ns" and "\<forall>m\<in>set ns. is_file_at es m"
    and "map_of es k = Some v" and "is_file v" and "k \<notin> set ns"
  shows "map_of (state (organise_loop env False skip es ns)) k = Some v"
proof (rule loop_preserves [where P = "\<lambda>es. map_of es k = Some v" and ?ns0.0 = ns])
  fix es' n assume "n \<in> set ns" "map_of es' k = Some v"
  with assms(4,5) show "map_of (state (process_file env skip es' n)) k = Some v"
    using process_file_keeps_file [of es' k n env skip] by (auto simp: is_file_at_def)
qed (use assms in auto)


lemma loop_no_new_file:
  assumes "distinct ns" and "\<forall>m\<in>set ns. is_file_at es m" and "\<not> is_file_at es k"
  shows "\<not> is_file_at (state (organise_loop env False skip es ns)) k"
proof (rule loop_preserves [where P = "\<lambda>es'. \<not> is_file_at es' k" and ?ns0.0 = ns])
  fix es' n assume "\<not> is_file_at es' k"
  then show "\<not> is_file_at (state (process_file env skip es' n)) k"
    using process_file_no_new_file [of env skip es' n k] by blast
qed (use assms in auto)


subsection \<open>The listing\<close>

lemma all_files_iff:
  assumes "wf_entries es"
  shows "k \<in> set (all_files es) \<longleftrightarrow> is_file_at es k"
proof
  assume "k \<in> set (all_files es)"
  then obtain v where "(k, v) \<in> set es" "is_file v"
    by (auto simp: all_files_def)
  with assms show "is_file_at es k"
    by (simp add: wf_entries_def is_file_at_def)
next
  assume "is_file_at es k"
  then obtain v where "map_of es k = Some v" "is_file v" by (rule is_file_atE)
  then have "(k, v) \<in> set es" by (simp add: map_of_SomeD)
  with \<open>is_file v\<close> show "k \<in> set (all_files es)"
    by (force simp: all_files_def)
qed

lemma distinct_all_files: "wf_entries es \<Longrightarrow> distinct (all_files es)"
  by (simp add: wf_entries_def all_files_def distinct_map_filter)

lemma all_files_worklist:
  "wf_entries es \<Longrightarrow> distinct (all_files es) \<and> (\<forall>m\<in>set (all_files es). is_file_at es m)"
  by (simp add: distinct_all_files all_files_iff)

subsection \<open>From the loop to the function\<close>





subsection \<open>A conflict with \<^verbatim>\<open>skip_existing\<close>\<close>


lemma skip_step:
  assumes "dest_exists es (get_category_for_file n) n"
  shows "process_file env True es n =
     \<lparr>raised = None, printed = [SkipExists n (get_category_for_file n)], state = es\<rparr>"
proof -
  from assms obtain v where "map_of es (get_category_for_file n) = Some v" "is_dir v"
    by (rule dest_exists_dir) (auto simp: is_dir_entries_of)
  then have "mkdir_exist_ok env es (get_category_for_file n) = Inr es"
    by (rule mkdir_there)
  with assms show ?thesis by (simp add: process_file_def)
qed


subsection \<open>Overwriting\<close>




subsection \<open>Claims on the live run\<close>

text \<open>
  C2 (as amended). In a live run, when the move of a file fails with an \<^verbatim>\<open>OSError\<close>, for
  whatever reason, after the category directory was found or created and an existing
  destination was removed where overwriting asks for it, the failure is caught: the pass
  for this file raises nothing, the error is printed with its reason, and the loop goes on
  with the remaining files.
\<close>

theorem rename_failure_is_caught:
  assumes "mkdir_exist_ok env es (get_category_for_file n) = Inr es1"
    and "if dest_exists es1 (get_category_for_file n) n
         then \<not> skip \<and> unlink env es1 (get_category_for_file n) n = Inr es2 else es2 = es1"
    and "rename env es2 n (get_category_for_file n) = Inl e"
  shows "raised (process_file env skip es n) = None \<and>
         organise_loop env False skip es (n # ns) =
           (let r = organise_loop env False skip es2 ns
            in r\<lparr>printed := ErrorMoving n e # printed r\<rparr>)"
proof -
  have "process_file env skip es n =
      \<lparr>raised = None, printed = [ErrorMoving n e], state = es2\<rparr>"
    using assms by (cases "dest_exists es1 (get_category_for_file n) n")
      (auto simp: process_file_def)
  then show ?thesis by (simp add: Let_def)
qed

text \<open>
  The move of \<open>a.png\<close> is refused for lack of permission; \<open>b.txt\<close> is moved all the same.
\<close>

theorem rename_failure_is_caught_witness:
  "organise_loop (refuse_rename ''a.png'' ''Images'' PermissionError)
     False True [(''a.png'', File ''p''), (''b.txt'', File ''t'')] [''a.png'', ''b.txt''] =
   \<lparr>raised = None,
    printed = [ErrorMoving ''a.png'' PermissionError, Move ''b.txt'' ''Documents''],
    state = [(''a.png'', File ''p''), (''Images'', Dir []),
             (''Documents'', Dir [(''b.txt'', File ''t'')])]\<rparr>"
proof -
  let ?env = "refuse_rename ''a.png'' ''Images'' PermissionError"
  let ?es = "[(''a.png'', File ''p''), (''b.txt'', File ''t'')]"
  let ?es1 = "[(''a.png'', File ''p''), (''b.txt'', File ''t''), (''Images'', Dir [])]"
  have mk: "mkdir_exist_ok ?env ?es (get_category_for_file ''a.png'') = Inr ?es1"
    by (simp add: category_a_png mkdir_exist_ok_def refuse_rename_def)
  have ul: "if dest_exists ?es1 (get_category_for_file ''a.png'') ''a.png''
      then \<not> True \<and> unlink ?env ?es1 (get_category_for_file ''a.png'') ''a.png'' = Inr ?es1
      else ?es1 = ?es1"
    by (simp add: category_a_png dest_exists_def dest_node_def)
  have rn: "rename ?env ?es1 ''a.png'' (get_category_for_file ''a.png'') = Inl PermissionError"
    by (simp add: category_a_png rename_def refuse_rename_def)
  have rest: "organise_loop ?env False True ?es1 [''b.txt''] =
      \<lparr>raised = None, printed = [Move ''b.txt'' ''Documents''],
       state = [(''a.png'', File ''p''), (''Images'', Dir []),
                (''Documents'', Dir [(''b.txt'', File ''t'')])]\<rparr>"
    by (simp add: category_b_txt run_defs refuse_rename_def)
  from rename_failure_is_caught [OF mk ul rn, of "[''b.txt'']"] rest
  show ?thesis by (simp add: Let_def del: organise_loop.simps)
qed

text \<open>
  C2 as stated fails for the creation of the category directory: with a regular file named
  \<open>Others\<close> in the target, \<^verbatim>\<open>mkdir\<close> raises \<^verbatim>\<open>FileExistsError\<close>, nothing catches it, and
  \<open>a.png\<close> is never looked at.
\<close>

theorem mkdir_failure_aborts_counterexample:
  "organise_folder no_faults
     (Some (Dir [(''Others'', File ''x''), (''a.png'', File ''p'')])) False True =
   \<lparr>raised = Some FileExistsError, printed = [],
    state = Some (Dir [(''Others'', File ''x''), (''a.png'', File ''p'')])\<rparr>"
  by (simp add: category_Others run_defs)









subsection \<open>Running twice\<close>

lemma same_kind_is_dir: "same_kind v v' \<Longrightarrow> is_dir v' = is_dir v"
  by (cases v; cases v') (auto simp: same_kind_def)


lemma settledI:
  assumes "map_of es (get_category_for_file n) = Some v" and "is_dir v"
    and "dest_exists es (get_category_for_file n) n \<or> env (Rename n (get_category_for_file n)) \<noteq> None"
  shows "settled env es n"
proof (cases "dest_exists es (get_category_for_file n) n")
  case True
  then show ?thesis by (simp add: settled_def skip_step)
next
  case False
  with assms(3) obtain e where "env (Rename n (get_category_for_file n)) = Some e" by auto
  then have "rename env es n (get_category_for_file n) = Inl e"
    by (simp add: rename_def)
  with False mkdir_there [OF assms(1,2), of env] show ?thesis
    by (simp add: settled_def process_file_def)
qed

lemma settledD:
  assumes "settled env es n" and "is_file_at es n"
  shows "(\<exists>v. map_of es (get_category_for_file n) = Some v \<and> is_dir v) \<and>
         (dest_exists es (get_category_for_file n) n \<or>
          env (Rename n (get_category_for_file n)) \<noteq> None)"
proof -
  let ?c = "get_category_for_file n"
  have dir: "\<exists>v. map_of es ?c = Some v \<and> is_dir v" if "mkdir_exist_ok env es ?c = Inr es"
    using mkdir_gives_dir [OF that] .
  show ?thesis
  proof (cases rule: process_file_cases [of env es n True])
    case (mkdir_failed e)
    with assms(1) show ?thesis by (simp add: settled_def)
  next
    case (skipped es1)
    with assms(1) have "es1 = es" by (simp add: settled_def)
    with skipped dir show ?thesis by simp
  next
    case (unlink_failed es1 e)
    then show ?thesis by simp
  next
    case (moved es1 es2 es3)
    with assms(1) have "es3 = es" by (simp add: settled_def)
    with rename_map [OF moved(3)] have "map_of es n = None" by auto
    with assms(2) show ?thesis by (simp add: is_file_at_def)
  next
    case (not_moved es1 es2 e)
    with assms(1) have e2: "es2 = es" by (simp add: settled_def)
    from not_moved(2) have e1: "es1 = es2" and nd: "\<not> dest_exists es1 ?c n"
      by (auto split: if_splits)
    from not_moved(1) e1 e2 have d: "\<exists>v. map_of es ?c = Some v \<and> is_dir v"
      by (intro dir) simp
    then obtain v where v: "map_of es ?c = Some v" "is_dir v" by blast
    from not_moved(3) e2 have "rename env es n ?c = Inl e" by simp
    from rename_error_of_file [OF this assms(2) v] nd e1 e2
    have "env (Rename n ?c) = Some e" by simp
    with d show ?thesis by simp
  qed
qed

lemma settled_after_pass:
  assumes "raised (process_file env True es n) = None"
    and "is_file_at (state (process_file env True es n)) n"
  shows "settled env (state (process_file env True es n)) n"
proof (cases rule: process_file_cases [of env es n True])
  case (mkdir_failed e)
  with assms(1) show ?thesis by simp
next
  case (skipped es1)
  then show ?thesis by (simp add: settled_def skip_step)
next
  case (unlink_failed es1 e)
  then show ?thesis by simp
next
  case (moved es1 es2 es3)
  from rename_map [OF moved(3)] have "map_of es3 n = None" by auto
  with assms(2) moved(4) show ?thesis by (simp add: is_file_at_def)
next
  case (not_moved es1 es2 e)
  let ?c = "get_category_for_file n"
  from not_moved(2) have e1: "es2 = es1" and nd: "\<not> dest_exists es1 ?c n"
    by (auto split: if_splits)
  from mkdir_gives_dir [OF not_moved(1)] obtain v where v: "map_of es1 ?c = Some v" "is_dir v"
    by blast
  from not_moved(3) e1 have "rename env es1 n ?c = Inl e" by simp
  with nd mkdir_there [OF v, of env] have "settled env es1 n"
    by (simp add: settled_def process_file_def)
  with not_moved(4) e1 show ?thesis by simp
qed

lemma settled_kept_by_pass:
  assumes "settled env es n" and "is_file_at es n" and "is_file_at es m" and "m \<noteq> n"
  shows "settled env (state (process_file env True es m)) n \<and>
         is_file_at (state (process_file env True es m)) n"
proof -
  let ?c = "get_category_for_file n"
  let ?es' = "state (process_file env True es m)"
  from settledD [OF assms(1,2)] obtain v where
    v: "map_of es ?c = Some v" "is_dir v"
    and r: "dest_exists es ?c n \<or> env (Rename n ?c) \<noteq> None"
    by blast
  from v(2) have "\<not> is_file v" by (cases v) auto
  from process_file_keeps_other [OF v(1) this assms(3), of env True] obtain v' where
    v': "map_of ?es' ?c = Some v'" "same_kind v v'"
    by blast
  with v(2) have d': "is_dir v'" by (simp add: same_kind_is_dir)
  from assms(4) have "dest_node ?es' ?c n = dest_node es ?c n"
    using process_file_keeps_dest [OF assms(3), of n env True ?c] by simp
  with r have r': "dest_exists ?es' ?c n \<or> env (Rename n ?c) \<noteq> None"
    by (simp add: dest_exists_def)
  from assms(2,4) have "is_file_at ?es' n"
    using process_file_keeps_file [of es n m env True] by (simp add: is_file_at_def)
  moreover have "settled env ?es' n"
    using v'(1) d' r' by (rule settledI)
  ultimately show ?thesis by simp
qed

lemma settled_kept_by_loop:
  assumes "settled env es n" and "is_file_at es n" and "n \<notin> set ns"
    and "distinct ns" and "\<forall>m\<in>set ns. is_file_at es m"
  shows "settled env (state (organise_loop env False True es ns)) n"
proof -
  have "settled env (state (organise_loop env False True es ns)) n \<and>
      is_file_at (state (organise_loop env False True es ns)) n"
  proof (rule loop_preserves [where P = "\<lambda>es. settled env es n \<and> is_file_at es n"
        and ?ns0.0 = ns])
    fix es' m
    assume "is_file_at es' m" "m \<in> set ns" "settled env es' n \<and> is_file_at es' n"
    with assms(3) show "settled env (state (process_file env True es' m)) n \<and>
        is_file_at (state (process_file env True es' m)) n"
      by (intro settled_kept_by_pass) auto
  qed (use assms in auto)
  then show ?thesis by simp
qed


text \<open>The listing after a pass is the listing before it without the files that left.\<close>

lemma all_files_delete: "all_files (AList.delete n es) = filter (\<lambda>k. k \<noteq> n) (all_files es)"
  by (induction es) (auto simp: all_files_def)

lemma all_files_update:
  "\<not> is_file v \<Longrightarrow> \<not> is_file_at es d \<Longrightarrow> all_files (AList.update d v es) = all_files es"
  by (induction es) (auto simp: all_files_def is_file_at_def)

lemma wf_entries_update: "wf_entries es \<Longrightarrow> wf_entries (AList.update d v es)"
  by (simp add: wf_entries_def AList.distinct_update)

lemma wf_entries_delete: "wf_entries es \<Longrightarrow> wf_entries (AList.delete d es)"
  by (simp add: wf_entries_def AList.distinct_delete)

lemma dir_not_file_at: "map_of es d = Some v \<Longrightarrow> entries_of v = Some ds \<Longrightarrow> \<not> is_file_at es d"
  by (cases v) (auto simp: is_file_at_def)

lemma mkdir_listing:
  assumes "mkdir_exist_ok env es d = Inr es1"
  shows "all_files es1 = all_files es \<and> (wf_entries es \<longrightarrow> wf_entries es1)"
  using assms
  by (rule mkdir_ok) (auto simp: all_files_update is_file_at_def wf_entries_update)

lemma unlink_listing:
  assumes "unlink env es d n = Inr es2"
  shows "all_files es2 = all_files es \<and> (wf_entries es \<longrightarrow> wf_entries es2)"
  using assms
  by (rule unlink_ok)
    (auto simp: all_files_update is_file_with_entries dir_not_file_at wf_entries_update)

lemma rename_listing:
  assumes "rename env es n d = Inr es3"
  shows "all_files es3 = filter (\<lambda>k. k \<noteq> n) (all_files es) \<and> map_of es3 n = None \<and>
         (wf_entries es \<longrightarrow> wf_entries es3)"
  using assms
proof (rule rename_ok)
  fix src v ds
  assume a: "map_of es d = Some v" "entries_of v = Some ds" "n \<noteq> d"
    "es3 = AList.update d (with_entries v (AList.update n src ds)) (AList.delete n es)"
  from a(1,3) have "map_of (AList.delete n es) d = Some v"
    by (simp add: AList.delete_conv')
  then have "\<not> is_file_at (AList.delete n es) d"
    using a(2) by (rule dir_not_file_at)
  with a show ?thesis
    by (auto simp: all_files_update is_file_with_entries all_files_delete wf_entries_update
        wf_entries_delete AList.update_conv' AList.delete_conv')
qed

lemma process_file_listing:
  "(all_files (state (process_file env skip es n)) = all_files es \<or>
    all_files (state (process_file env skip es n)) = filter (\<lambda>k. k \<noteq> n) (all_files es) \<and>
    map_of (state (process_file env skip es n)) n = None) \<and>
   (wf_entries es \<longrightarrow> wf_entries (state (process_file env skip es n)))"
proof -
  have before: "all_files es2 = all_files es \<and> (wf_entries es \<longrightarrow> wf_entries es2)"
    if "mkdir_exist_ok env es c = Inr es1"
      and "if dest_exists es1 c n then \<not> skip \<and> unlink env es1 c n = Inr es2 else es2 = es1"
    for c es1 es2
    using mkdir_listing [OF that(1)] that(2) unlink_listing [of env es1 c n es2]
    by (cases "dest_exists es1 c n") auto
  show ?thesis
  proof (cases rule: process_file_cases [of env es n skip])
    case (mkdir_failed e)
    then show ?thesis by simp
  next
    case (skipped es1)
    with mkdir_listing [OF skipped(1)] show ?thesis by simp
  next
    case (unlink_failed es1 e)
    with mkdir_listing [OF unlink_failed(1)] show ?thesis by simp
  next
    case (not_moved es1 es2 e)
    with before [OF not_moved(1,2)] show ?thesis by simp
  next
    case (moved es1 es2 es3)
    with before [OF moved(1,2)] rename_listing [OF moved(3)] show ?thesis by simp
  qed
qed

lemma process_file_listing_filter:
  assumes "wf_entries es"
  shows "wf_entries (state (process_file env skip es n)) \<and>
         all_files (state (process_file env skip es n)) =
           filter (is_file_at (state (process_file env skip es n))) (all_files es)"
proof -
  let ?es' = "state (process_file env skip es n)"
  from process_file_listing [of env skip es n] assms have wf': "wf_entries ?es'" by simp
  have self: "filter (is_file_at ?es') (all_files ?es') = all_files ?es'"
    by (simp add: all_files_iff [OF wf'])
  from process_file_listing [of env skip es n]
  have "all_files ?es' = all_files es \<or>
      all_files ?es' = filter (\<lambda>k. k \<noteq> n) (all_files es) \<and> map_of ?es' n = None"
    by simp
  then consider (same) "all_files ?es' = all_files es"
    | (left) "all_files ?es' = filter (\<lambda>k. k \<noteq> n) (all_files es)" "map_of ?es' n = None"
    by auto
  then have "all_files ?es' = filter (is_file_at ?es') (all_files es)"
  proof cases
    case same
    with self show ?thesis by simp
  next
    case left
    note 2 = this
    have "filter (is_file_at ?es') (all_files es) = filter (\<lambda>k. k \<noteq> n) (all_files es)"
    proof (rule filter_cong [OF refl])
      fix k assume "k \<in> set (all_files es)"
      show "is_file_at ?es' k = (k \<noteq> n)"
      proof (cases "k = n")
        case True
        with 2(2) show ?thesis by (simp add: is_file_at_def)
      next
        case False
        with \<open>k \<in> set (all_files es)\<close> have "k \<in> set (all_files ?es')"
          by (simp add: 2(1))
        with False show ?thesis by (simp add: all_files_iff [OF wf'])
      qed
    qed
    with 2(1) show ?thesis by simp
  qed
  with wf' show ?thesis by simp
qed

lemma loop_listing:
  assumes "wf_entries es" and "distinct ns" and "\<forall>m\<in>set ns. is_file_at es m"
  shows "all_files (state (organise_loop env False skip es ns)) =
     filter (is_file_at (state (organise_loop env False skip es ns))) (all_files es)"
proof -
  have "wf_entries (state (organise_loop env False skip es ns)) \<and>
      all_files (state (organise_loop env False skip es ns)) =
        filter (is_file_at (state (organise_loop env False skip es ns))) (all_files es)"
  proof (rule loop_preserves [where P = "\<lambda>es'. wf_entries es' \<and>
        all_files es' = filter (is_file_at es') (all_files es)" and ?ns0.0 = ns])
    fix es' n
    let ?es'' = "state (process_file env skip es' n)"
    assume P: "wf_entries es' \<and> all_files es' = filter (is_file_at es') (all_files es)"
    from process_file_listing_filter [of es' env skip n] P
    have wf'': "wf_entries ?es''"
      and l: "all_files ?es'' = filter (is_file_at ?es'') (filter (is_file_at es') (all_files es))"
      by simp_all
    have "filter (is_file_at ?es'') (filter (is_file_at es') (all_files es)) =
        filter (is_file_at ?es'') (all_files es)"
      using process_file_no_new_file [of env skip es' n]
      by (auto simp: filter_filter intro!: filter_cong)
    with wf'' l show "wf_entries ?es'' \<and> all_files ?es'' = filter (is_file_at ?es'') (all_files es)"
      by simp
  next
    show "wf_entries es \<and> all_files es = filter (is_file_at es) (all_files es)"
      using assms(1) by (simp add: all_files_iff)
  qed (use assms in auto)
  then show ?thesis by simp
qed



text \<open>
  When the first pass raised nothing, every file left in the root is settled, and a second
  pass changes nothing in whatever order it takes the files.
\<close>

lemma all_settled_after_loop:
  assumes "distinct ns" and "\<forall>m\<in>set ns. is_file_at es m"
    and "raised (organise_loop env False True es ns) = None"
    and "n \<in> set ns" and "is_file_at (state (organise_loop env False True es ns)) n"
  shows "settled env (state (organise_loop env False True es ns)) n"
  using assms
proof (induction ns arbitrary: es)
  case Nil
  then show ?case by simp
next
  case (Cons m ns)
  let ?p = "process_file env True es m"
  let ?r = "organise_loop env False True (state ?p) ns"
  from Cons.prems(3) have ok: "raised ?p = None"
    by (auto simp: loop_live_raised simp del: organise_loop.simps split: if_splits)
  with Cons.prems(3) have r: "raised ?r = None"
    by (simp add: loop_live_raised del: organise_loop.simps)
  from ok have st: "state (organise_loop env False True es (m # ns)) = state ?r"
    by (simp add: loop_live_state del: organise_loop.simps)
  from worklist_step [OF Cons.prems(1,2), of env True]
  have wl: "distinct ns" "\<forall>k\<in>set ns. is_file_at (state ?p) k" by simp_all
  from Cons.prems(5) have there: "is_file_at (state ?r) n" by (simp only: st)
  show ?case
  proof (cases "n = m")
    case True
    from Cons.prems(1) True have fresh: "n \<notin> set ns" by simp
    have fp: "is_file_at (state ?p) n"
      using loop_no_new_file [OF wl, of n env True] there by blast
    from settled_after_pass [OF ok] fp True have "settled env (state ?p) n" by simp
    then have "settled env (state ?r) n"
      using fp fresh wl by (intro settled_kept_by_loop) auto
    then show ?thesis by (simp only: st)
  next
    case False
    with Cons.prems(4) have "n \<in> set ns" by simp
    from Cons.IH [OF wl r this there] show ?thesis by (simp only: st)
  qed
qed

lemma settled_pass:
  assumes "\<forall>n\<in>set ns. settled env es n"
  shows "state (organise_loop env False True es ns) = es"
  using assms
  by (induction ns) (auto simp: loop_live_state settled_def simp del: organise_loop.simps(2))

lemma second_run_any_order:
  assumes "wf_entries es"
    and "raised (organise_loop env False True es (all_files es)) = None"
    and "set ns \<subseteq> set (all_files (state (organise_loop env False True es (all_files es))))"
  shows "state (organise_loop env False True
           (state (organise_loop env False True es (all_files es))) ns) =
         state (organise_loop env False True es (all_files es))"
proof (rule settled_pass, rule ballI)
  let ?es1 = "state (organise_loop env False True es (all_files es))"
  note wl = all_files_worklist [OF assms(1)]
  fix n assume "n \<in> set ns"
  with assms(3) have "n \<in> set (all_files ?es1)" by blast
  moreover have "all_files ?es1 = filter (is_file_at ?es1) (all_files es)"
    using assms(1) wl by (intro loop_listing) auto
  ultimately have "n \<in> set (all_files es)" "is_file_at ?es1 n" by simp_all
  with wl assms(2) show "settled env ?es1 n"
    by (intro all_settled_after_loop) auto
qed

end
